theory Spec2Isabelle
  imports Complex_Main "HOL-Library.List_Lexorder" "HOL-Library.Char_ord"
begin

section \<open>Clause algebra and resolution (PropDeduction.py)\<close>

text \<open>
  A literal is a Python \<^verbatim>\<open>str\<close>, a clause a \<^verbatim>\<open>frozenset\<close> of literals and a knowledge
  base a \<^verbatim>\<open>set\<close> of clauses. The marker \<^verbatim>\<open>~\<close> is ASCII, so a string is modelled as a
  list of characters.
\<close>

type_synonym literal = string
type_synonym clause = "literal set"

text \<open>
  \<^verbatim>\<open>return literal[1:] if literal.startswith('~') else '~' + literal\<close>
\<close>

definition negate :: "literal \<Rightarrow> literal" where
  "negate literal =
     (if literal \<noteq> [] \<and> hd literal = CHR ''~'' then tl literal else CHR ''~'' # literal)"

text \<open>
  \<^verbatim>\<open>for l in ci: nl = negate(l); if nl in cj: resolvents.append((ci | cj) - {l, nl})\<close>

  Python leaves the iteration order of a frozenset open. The model walks \<open>ci\<close> in
  sorted order; the order only decides the position of a resolvent in the returned list,
  never which resolvents it holds.
\<close>

definition resolve :: "clause \<Rightarrow> clause \<Rightarrow> clause list" where
  "resolve ci cj =
     map (\<lambda>l. (ci \<union> cj) - {l, negate l})
       (filter (\<lambda>l. negate l \<in> cj) (sorted_list_of_set ci))"

text \<open>
  One pass of the \<^verbatim>\<open>for (ci, cj) in pairs\<close> loop: every resolvent of every ordered pair of
  different clauses of the working set.
\<close>

definition resolvents_of :: "clause set \<Rightarrow> clause set" where
  "resolvents_of clauses =
     (\<Union>ci\<in>clauses. \<Union>cj\<in>clauses. if ci \<noteq> cj then set (resolve ci cj) else {})"

text \<open>
  The \<^verbatim>\<open>while True\<close> loop with its two variables \<^verbatim>\<open>clauses\<close> and \<^verbatim>\<open>new\<close>; \<^verbatim>\<open>new\<close> is
  never reset between rounds. An empty resolvent anywhere in the round returns \<open>True\<close>
  at once; otherwise the round's resolvents join \<^verbatim>\<open>new\<close>, and the loop returns \<open>False\<close>
  when \<^verbatim>\<open>new\<close> is a subset of \<^verbatim>\<open>clauses\<close>. Not returning is the value \<open>None\<close>.
\<close>

partial_function (option) saturate :: "clause set \<Rightarrow> clause set \<Rightarrow> bool option" where
  "saturate clauses new =
     (if {} \<in> resolvents_of clauses then Some True
      else if new \<union> resolvents_of clauses \<subseteq> clauses then Some False
      else saturate (clauses \<union> (new \<union> resolvents_of clauses)) (new \<union> resolvents_of clauses))"

declare saturate.simps [code]

definition resolution_entails :: "clause set \<Rightarrow> literal \<Rightarrow> bool option" where
  "resolution_entails kb query = saturate (insert {negate query} kb) {}"

text \<open>The knowledge base of the example block: (A or B), (not A or C), (not B or C), (not C or D).\<close>

definition example_kb :: "clause set" where
  "example_kb = {{''A'', ''B''}, {''~A'', ''C''}, {''~B'', ''C''}, {''~C'', ''D''}}"

section \<open>Horn-clause abduction (PropHornClauseAbduction.py, PropInductionwCostMin.py)\<close>

text \<open>
  \<^verbatim>\<open>class HornClause\<close> with its two fields. The definitions of this section follow
  \<^verbatim>\<open>PropInductionwCostMin.py\<close>. \<^verbatim>\<open>PropHornClauseAbduction.py\<close> holds the same text of
  \<^verbatim>\<open>abduce\<close> twice and of \<^verbatim>\<open>abduce_min_cost\<close> once, but its \<^verbatim>\<open>import\<close> lines stand inside
  string literals, so the names \<^verbatim>\<open>List\<close>, \<^verbatim>\<open>Set\<close> and \<^verbatim>\<open>product\<close> are unbound there and the
  file does not load; nothing below is a statement about that file as it runs.
\<close>

record HornClause =
  head :: string
  body :: "string list"

text \<open>
  \<^verbatim>\<open>abduce(goal, kb, abducibles, seen=None)\<close>. The default argument is an \<open>option\<close>;
  \<^verbatim>\<open>any(len(exs) == 0 ...)\<close> is \<open>list_ex\<close>, \<^verbatim>\<open>product(*sub_expls)\<close> is \<open>product_lists\<close>
  (the first list varies slowest in both), \<^verbatim>\<open>set().union(*combo)\<close> is the union of the
  combination and \<^verbatim>\<open>other < e\<close> is the strict subset. The recursion ends because every
  call adds its goal to \<^verbatim>\<open>seen\<close> and only goes on to body atoms of the knowledge base.
\<close>

function abduce ::
  "string \<Rightarrow> HornClause list \<Rightarrow> string set \<Rightarrow> string set option \<Rightarrow> string set list" where
  "abduce goal kb abducibles seen_arg =
     (let seen = (case seen_arg of None \<Rightarrow> {} | Some s \<Rightarrow> s) in
      if goal \<in> seen then []
      else
        let seen' = seen \<union> {goal};
            explanations =
              (if goal \<in> abducibles then [{goal}] else []) @
              concat (map (\<lambda>clause.
                if head clause = goal then
                  (let sub_expls = map (\<lambda>b. abduce b kb abducibles (Some seen')) (body clause) in
                   if list_ex (\<lambda>exs. length exs = 0) sub_expls then []
                   else map (\<lambda>combo. \<Union> (set combo)) (product_lists sub_expls))
                else []) kb)
        in filter (\<lambda>e. \<not> list_ex (\<lambda>other. other \<subset> e) explanations) explanations)"
  by pat_completeness auto
termination
proof (relation "measure (\<lambda>(goal, kb, abducibles, seen_arg).
         card (insert goal (\<Union>c\<in>set kb. set (body c)) -
               (case seen_arg of None \<Rightarrow> {} | Some s \<Rightarrow> s)))")
  show "wf (measure (\<lambda>(goal, kb, abducibles, seen_arg).
         card (insert goal (\<Union>c\<in>set kb. set (body c)) -
               (case seen_arg of None \<Rightarrow> {} | Some s \<Rightarrow> s))))" by simp
next
  fix goal :: string and kb :: "HornClause list" and abducibles :: "string set"
    and seen_arg :: "string set option" and seen seen' :: "string set"
    and clause :: HornClause and b :: string
  assume seen: "seen = (case seen_arg of None \<Rightarrow> {} | Some s \<Rightarrow> s)"
    and notin: "goal \<notin> seen" and seen': "seen' = seen \<union> {goal}"
    and cl: "clause \<in> set kb" and "head clause = goal" and b: "b \<in> set (body clause)"
  let ?A = "\<Union>c\<in>set kb. set (body c)"
  have fin: "finite ?A" by simp
  have bA: "b \<in> ?A" using cl b by blast
  have "insert b ?A - seen' \<subset> insert goal ?A - seen"
    using bA notin seen' by auto
  moreover have "finite (insert goal ?A - seen)" using fin by simp
  ultimately have "card (insert b ?A - seen') < card (insert goal ?A - seen)"
    by (rule psubset_card_mono [rotated])
  then show "((b, kb, abducibles, Some seen'), (goal, kb, abducibles, seen_arg))
      \<in> measure (\<lambda>(goal, kb, abducibles, seen_arg).
         card (insert goal (\<Union>c\<in>set kb. set (body c)) -
               (case seen_arg of None \<Rightarrow> {} | Some s \<Rightarrow> s)))"
    using seen by simp
qed

declare abduce.simps [simp del]

text \<open>The knowledge base of the example blocks: r :- p, q. r :- s. p :- t. q.\<close>

definition example_horn_kb :: "HornClause list" where
  "example_horn_kb =
     [\<lparr>head = ''r'', body = [''p'', ''q'']\<rparr>,
      \<lparr>head = ''r'', body = [''s'']\<rparr>,
      \<lparr>head = ''p'', body = [''t'']\<rparr>,
      \<lparr>head = ''q'', body = []\<rparr>]"

text \<open>
  The abduction function read in three steps, for the proofs: the explanations one clause
  contributes, the candidate list before pruning, and the pruning.
\<close>

definition clause_explanations ::
  "string \<Rightarrow> HornClause list \<Rightarrow> string set \<Rightarrow> string set \<Rightarrow> HornClause \<Rightarrow> string set list" where
  "clause_explanations goal kb abducibles seen' clause =
     (if head clause = goal then
        (let sub_expls = map (\<lambda>b. abduce b kb abducibles (Some seen')) (body clause) in
         if list_ex (\<lambda>exs. length exs = 0) sub_expls then []
         else map (\<lambda>combo. \<Union> (set combo)) (product_lists sub_expls))
      else [])"

definition candidates :: "string \<Rightarrow> HornClause list \<Rightarrow> string set \<Rightarrow> string set \<Rightarrow> string set list" where
  "candidates goal kb abducibles seen' =
     (if goal \<in> abducibles then [{goal}] else []) @
     concat (map (clause_explanations goal kb abducibles seen') kb)"

definition prune :: "string set list \<Rightarrow> string set list" where
  "prune explanations = filter (\<lambda>e. \<not> list_ex (\<lambda>other. other \<subset> e) explanations) explanations"

definition seen_of :: "string set option \<Rightarrow> string set" where
  "seen_of seen_arg = (case seen_arg of None \<Rightarrow> {} | Some s \<Rightarrow> s)"

subsection \<open>The cost-minimising wrapper\<close>

text \<open>
  Python raises on \<^verbatim>\<open>min\<close> of an empty sequence and on \<^verbatim>\<open>math.log2\<close> of a number that is
  not positive (\<^verbatim>\<open>ValueError\<close>), and on a division by zero.
\<close>

datatype py_error = ValueError | ZeroDivisionError

text \<open>
  A score is a Python \<^verbatim>\<open>float\<close>: the values of the cost map (\<^verbatim>\<open>Dict[str, float]\<close>), the
  default \<^verbatim>\<open>float('inf')\<close> and the sums of these. The docstring takes the costs to be
  nonnegative, so a score is a nonnegative finite float, \<open>Cost\<close> of the real number it
  stands for, or plus infinity; NaN and minus infinity do not arise.

  The sum of two finite floats is their exact sum rounded to a float, and plus infinity
  when it is too large for one. The rounding is the parameter \<open>rnd\<close> of the model; the
  sum of a float and infinity is infinity. Comparison and equality of floats are those of
  the numbers.
\<close>

datatype score = Cost real | Infinity

fun score_add :: "(real \<Rightarrow> score) \<Rightarrow> score \<Rightarrow> score \<Rightarrow> score" where
  "score_add rnd (Cost a) (Cost b) = rnd (a + b)"
| "score_add rnd _ _ = Infinity"

fun score_less :: "score \<Rightarrow> score \<Rightarrow> bool" where
  "score_less (Cost a) (Cost b) = (a < b)"
| "score_less (Cost a) Infinity = True"
| "score_less Infinity _ = False"

text \<open>\<^verbatim>\<open>cost.get(a, float('inf'))\<close>\<close>

definition cost_get :: "(string \<rightharpoonup> score) \<Rightarrow> string \<Rightarrow> score" where
  "cost_get cost a = (case cost a of None \<Rightarrow> Infinity | Some c \<Rightarrow> c)"

text \<open>
  \<^verbatim>\<open>sum(cost.get(a, float('inf')) for a in expl)\<close>: \<^verbatim>\<open>sum\<close> starts from 0 and adds the items
  from left to right, in the order in which the set \<^verbatim>\<open>expl\<close> hands out its atoms. That
  order is given as the list \<open>atoms\<close>. This is the \<^verbatim>\<open>sum\<close> of CPython up to version 3.11;
  from 3.12 on the interpreter also collects the rounding errors of the additions and
  adds them to a total that is finite, which can change the last digit of such a total.
\<close>

definition total_cost :: "(real \<Rightarrow> score) \<Rightarrow> (string \<rightharpoonup> score) \<Rightarrow> string list \<Rightarrow> score" where
  "total_cost rnd cost atoms =
     fold (\<lambda>a acc. score_add rnd acc (cost_get cost a)) atoms (Cost 0)"

text \<open>
  The \<^verbatim>\<open>for expl in all_expls\<close> loop that fills the list \<^verbatim>\<open>scored\<close>. Python leaves the
  iteration order of a set open, and two equal sets can differ in it, so the order is a
  parameter of the model: \<open>iter i expl\<close> lists the atoms of the explanation at position
  \<open>i\<close> of \<^verbatim>\<open>all_expls\<close> in the order of its iteration.
\<close>

definition scored_of ::
  "(real \<Rightarrow> score) \<Rightarrow> (nat \<Rightarrow> string set \<Rightarrow> string list) \<Rightarrow> (string \<rightharpoonup> score) \<Rightarrow>
     string set list \<Rightarrow> (score \<times> string set) list" where
  "scored_of rnd iter cost all_expls =
     map (\<lambda>(i, expl). (total_cost rnd cost (iter i expl), expl)) (enumerate 0 all_expls)"

text \<open>\<^verbatim>\<open>min\<close> keeps the first smallest item.\<close>

fun py_min :: "score list \<Rightarrow> py_error + score" where
  "py_min [] = Inl ValueError"
| "py_min (x # xs) = Inr (fold (\<lambda>item best. if score_less item best then item else best) xs x)"

definition abduce_min_cost ::
  "(real \<Rightarrow> score) \<Rightarrow> (nat \<Rightarrow> string set \<Rightarrow> string list) \<Rightarrow>
     string \<Rightarrow> HornClause list \<Rightarrow> string set \<Rightarrow> (string \<rightharpoonup> score) \<Rightarrow> py_error + string set list" where
  "abduce_min_cost rnd iter goal kb abducibles cost =
     (let all_expls = abduce goal kb abducibles None;
          scored = scored_of rnd iter cost all_expls
      in if scored = [] then Inr []
         else case py_min (map fst scored) of
                Inl err \<Rightarrow> Inl err
              | Inr min_cost \<Rightarrow> Inr (map snd (filter (\<lambda>(score, expl). score = min_cost) scored)))"


section \<open>FOIL rule induction (PropInduction.py)\<close>

text \<open>
  \<^verbatim>\<open>p1 / (p1 + n1)\<close> is Python's true division and \<^verbatim>\<open>math.log2\<close> its logarithm; both are
  modelled on exact reals with the errors they raise. The quotient of two integers is
  zero as a float exactly when the numerator is zero, so the error branches are those of
  the code.
\<close>

type_synonym example = "string \<times> string"
type_synonym rule = "string \<times> string \<times> (string \<times> string) list"

definition py_truediv :: "int \<Rightarrow> int \<Rightarrow> py_error + real" where
  "py_truediv a b = (if b = 0 then Inl ZeroDivisionError else Inr (real_of_int a / real_of_int b))"

definition py_log2 :: "real \<Rightarrow> py_error + real" where
  "py_log2 x = (if x \<le> 0 then Inl ValueError else Inr (log 2 x))"

definition foil_gain :: "int \<Rightarrow> int \<Rightarrow> int \<Rightarrow> int \<Rightarrow> py_error + real" where
  "foil_gain p n p1 n1 =
     (if p = 0 \<or> p1 + n1 = 0 then Inr 0
      else case py_truediv p1 (p1 + n1) of Inl err \<Rightarrow> Inl err | Inr q1 \<Rightarrow>
           case py_log2 q1 of Inl err \<Rightarrow> Inl err | Inr l1 \<Rightarrow>
           case py_truediv p (p + n) of Inl err \<Rightarrow> Inl err | Inr q \<Rightarrow>
           case py_log2 q of Inl err \<Rightarrow> Inl err | Inr l \<Rightarrow>
           Inr (real_of_int p1 * (l1 - l)))"

text \<open>
  The \<^verbatim>\<open>for pred in predicates - {...}\<close> loop over the state \<^verbatim>\<open>best_gain\<close>,
  \<^verbatim>\<open>best_literal\<close>, \<^verbatim>\<open>best_pos_cover\<close>, \<^verbatim>\<open>best_neg_cover\<close>. An error of \<open>foil_gain\<close> leaves
  the loop.
\<close>

type_synonym best = "real \<times> (string \<times> string) option \<times> example list \<times> example list"

fun scan_candidates ::
  "example set \<Rightarrow> example list \<Rightarrow> example list \<Rightarrow> string list \<Rightarrow> best \<Rightarrow> py_error + best" where
  "scan_candidates background pos_cover neg_cover [] st = Inr st"
| "scan_candidates background pos_cover neg_cover (pred # preds)
       (best_gain, best_literal, best_pos_cover, best_neg_cover) =
     (let new_pos = filter (\<lambda>e. (pred, snd e) \<in> background) pos_cover;
          new_neg = filter (\<lambda>e. (pred, snd e) \<in> background) neg_cover
      in case foil_gain (int (length pos_cover)) (int (length neg_cover))
                (int (length new_pos)) (int (length new_neg)) of
           Inl err \<Rightarrow> Inl err
         | Inr gain \<Rightarrow>
             scan_candidates background pos_cover neg_cover preds
               (if gain > best_gain then (gain, Some (pred, ''X''), new_pos, new_neg)
                else (best_gain, best_literal, best_pos_cover, best_neg_cover)))"

text \<open>
  The \<^verbatim>\<open>while neg_cover\<close> loop. The set \<^verbatim>\<open>predicates\<close> is given as the list of its elements
  in iteration order, and the candidates are those not yet used in the body of the rule (\<open>rule_body\<close>).
\<close>

partial_function (option) add_literals ::
  "example set \<Rightarrow> string list \<Rightarrow> (string \<times> string) list \<Rightarrow> example list \<Rightarrow> example list
     \<Rightarrow> (py_error + (string \<times> string) list) option" where
  "add_literals background predicates rule_body pos_cover neg_cover =
     (if neg_cover = [] then Some (Inr rule_body)
      else case scan_candidates background pos_cover neg_cover
                  (filter (\<lambda>pred. pred \<notin> fst ` set rule_body) predicates) (0, None, [], []) of
             Inl err \<Rightarrow> Some (Inl err)
           | Inr (best_gain, best_literal, best_pos_cover, best_neg_cover) \<Rightarrow>
               (case best_literal of
                  None \<Rightarrow> Some (Inr rule_body)
                | Some lit \<Rightarrow>
                    add_literals background predicates (rule_body @ [lit]) best_pos_cover best_neg_cover))"

text \<open>The \<^verbatim>\<open>while pos_examples\<close> loop: one rule per round.\<close>

partial_function (option) cover_positives ::
  "example list \<Rightarrow> example set \<Rightarrow> string list \<Rightarrow> example list \<Rightarrow> rule list
     \<Rightarrow> (py_error + rule list) option" where
  "cover_positives neg_examples background predicates pos_examples rules =
     (case pos_examples of
        [] \<Rightarrow> Some (Inr rules)
      | first # _ \<Rightarrow>
          (let head_pred = fst first;
               pos_cover = filter (\<lambda>e. fst e = head_pred) pos_examples;
               neg_cover = filter (\<lambda>e. fst e = head_pred) neg_examples
           in case add_literals background predicates [] pos_cover neg_cover of
                None \<Rightarrow> None
              | Some (Inl err) \<Rightarrow> Some (Inl err)
              | Some (Inr rule_body) \<Rightarrow>
                  (let covered = filter (\<lambda>e. fst e = head_pred \<and>
                                    (\<forall>lit\<in>set rule_body. (fst lit, snd e) \<in> background)) pos_examples
                   in cover_positives neg_examples background predicates
                        (filter (\<lambda>e. e \<notin> set covered) pos_examples)
                        (rules @ [(head_pred, ''X'', rule_body)]))))"

definition learn_rules ::
  "example list \<Rightarrow> example list \<Rightarrow> example set \<Rightarrow> string list \<Rightarrow> (py_error + rule list) option" where
  "learn_rules pos neg background predicates = cover_positives neg background predicates pos []"

text \<open>The data of the example block.\<close>

definition example_background :: "example set" where
  "example_background = {(''Bird'', ''tweety''), (''Bird'', ''polly''), (''Bird'', ''tweety2''),
     (''Mammal'', ''leo''), (''Mammal'', ''max'')}"

definition example_pos :: "example list" where
  "example_pos = [(''Fly'', ''tweety''), (''Fly'', ''polly''), (''Fly'', ''tweety2'')]"

definition example_neg :: "example list" where
  "example_neg = [(''Fly'', ''leo''), (''Fly'', ''max'')]"


section \<open>Properties of the clause algebra\<close>

lemma negate_neq: "negate l \<noteq> l"
proof
  assume "negate l = l"
  then have "length (negate l) = length l" by simp
  then show False by (cases l) (auto simp: negate_def split: if_splits)
qed

lemma set_resolve:
  "finite ci \<Longrightarrow>
   set (resolve ci cj) = (\<lambda>l. (ci \<union> cj) - {l, negate l}) ` {l \<in> ci. negate l \<in> cj}"
  by (simp add: resolve_def)

text \<open>
  Claim C9. A literal is an atom name with at most one negation marker in front, so it
  does not start with two markers. For every literal, negating twice gives the literal
  back: \<open>negate\<close> strips the leading marker when there is one and adds one otherwise.
\<close>

theorem negate_involution_canonical:
  "take 2 l \<noteq> ''~~'' \<Longrightarrow> negate (negate l) = l"
proof (cases l)
  case Nil
  then show ?thesis by (simp add: negate_def)
next
  case (Cons c cs)
  assume "take 2 l \<noteq> ''~~''"
  with Cons show ?thesis
    by (cases cs) (auto simp: negate_def)
qed

theorem negate_involution_canonical_witness:
  "take 2 ''~A'' \<noteq> ''~~'' \<and> negate (negate ''~A'') = ''~A''"
  using negate_involution_canonical [of "''~A''"] by simp

text \<open>
  The same fact as a rule for the proofs below, and the reason for its premise: \<open>negate\<close>
  checks nothing, and on a string that starts with two markers, which is no literal, it
  strips one marker after the other.
\<close>

lemma negate_negate: "take 2 l \<noteq> ''~~'' \<Longrightarrow> negate (negate l) = l"
proof (cases l)
  case Nil
  then show ?thesis by (simp add: negate_def)
next
  case (Cons c cs)
  assume "take 2 l \<noteq> ''~~''"
  with Cons show ?thesis
    by (cases cs) (auto simp: negate_def)
qed

lemma negate_two_markers: "negate (negate ''~~A'') = ''A''"
  by (simp add: negate_def)

text \<open>
  A resolvent on the pair \<open>{l, negate l}\<close> of two clauses that hold no literal together
  with its complement is itself free of such pairs if \<open>l\<close> is the only literal of \<open>ci\<close>
  with its complement in \<open>cj\<close>; a second such literal stays in the resolvent together
  with its complement.
\<close>

lemma resolvent_tautology_free:
  assumes canon: "\<forall>m\<in>ci \<union> cj. take 2 m \<noteq> ''~~''"
    and ci: "\<forall>m\<in>ci. negate m \<notin> ci" and cj: "\<forall>m\<in>cj. negate m \<notin> cj"
    and l: "l \<in> ci" "negate l \<in> cj"
    and single: "\<forall>l\<in>ci. \<forall>m\<in>ci. negate l \<in> cj \<longrightarrow> negate m \<in> cj \<longrightarrow> l = m"
    and m: "m \<in> (ci \<union> cj) - {l, negate l}"
  shows "negate m \<notin> (ci \<union> cj) - {l, negate l}"
proof
  assume n: "negate m \<in> (ci \<union> cj) - {l, negate l}"
  from m have ml: "m \<noteq> l" "m \<noteq> negate l" by auto
  from n have nl: "negate m \<noteq> l" "negate m \<noteq> negate l" by auto
  from m consider "m \<in> ci" | "m \<in> cj" by auto
  then show False
  proof cases
    case 1
    with ci have "negate m \<notin> ci" by simp
    with n have "negate m \<in> cj" by auto
    with single 1 l have "l = m" by blast
    with ml show False by simp
  next
    case 2
    with cj have "negate m \<notin> cj" by simp
    with n have nci: "negate m \<in> ci" by auto
    have "negate (negate m) = m" using canon 2 by (intro negate_negate) auto
    with 2 have "negate (negate m) \<in> cj" by simp
    with single nci l have "l = negate m" by blast
    with nl show False by simp
  qed
qed

lemma resolvent_tautology:
  assumes canon: "\<forall>m\<in>ci \<union> cj. take 2 m \<noteq> ''~~''"
    and ci: "\<forall>m\<in>ci. negate m \<notin> ci"
    and l: "l \<in> ci" "negate l \<in> cj" and k: "k \<in> ci" "negate k \<in> cj" and kl: "k \<noteq> l"
  shows "k \<in> (ci \<union> cj) - {l, negate l} \<and> negate k \<in> (ci \<union> cj) - {l, negate l}"
proof -
  have "k \<noteq> negate l" using ci l(1) k(1) by auto
  moreover have "negate k \<noteq> l"
  proof
    assume "negate k = l"
    then have "negate (negate k) = negate l" by simp
    moreover have "negate (negate k) = k" using canon k(1) by (intro negate_negate) auto
    ultimately have "negate l = k" by simp
    with ci l(1) k(1) show False by auto
  qed
  moreover have "negate k \<noteq> negate l"
  proof
    assume "negate k = negate l"
    then have "negate (negate k) = negate (negate l)" by simp
    moreover have "negate (negate k) = k" using canon k(1) by (intro negate_negate) auto
    moreover have "negate (negate l) = l" using canon l(1) by (intro negate_negate) auto
    ultimately show False using kl by simp
  qed
  ultimately show ?thesis using k kl by auto
qed

text \<open>
  Claim C1, as amended. Every resolvent returned by \<open>resolve ci cj\<close> is the union of the
  two clauses minus one complementary pair \<open>{l, negate l}\<close> with \<open>l\<close> in \<open>ci\<close> and
  \<open>negate l\<close> in \<open>cj\<close>; the two literals of the pair are different and neither is left in
  the resolvent. If all literals of the two clauses have at most one negation marker and
  neither clause holds a literal together with its complement, then the resolvent holds
  no literal together with its complement exactly when a single literal of \<open>ci\<close> has its
  complement in \<open>cj\<close>.
\<close>

theorem resolve_removes_one_pair:
  assumes "finite ci" and "r \<in> set (resolve ci cj)"
  shows "(\<exists>l. l \<in> ci \<and> negate l \<in> cj \<and> l \<noteq> negate l \<and>
              r = (ci \<union> cj) - {l, negate l} \<and> l \<notin> r \<and> negate l \<notin> r) \<and>
         ((\<forall>m\<in>ci \<union> cj. take 2 m \<noteq> ''~~'') \<longrightarrow>
          (\<forall>m\<in>ci. negate m \<notin> ci) \<longrightarrow> (\<forall>m\<in>cj. negate m \<notin> cj) \<longrightarrow>
          ((\<forall>m\<in>r. negate m \<notin> r) \<longleftrightarrow>
           (\<forall>l\<in>ci. \<forall>m\<in>ci. negate l \<in> cj \<longrightarrow> negate m \<in> cj \<longrightarrow> l = m)))"
proof (rule conjI)
  from assms obtain l where l: "l \<in> ci" "negate l \<in> cj" and r: "r = (ci \<union> cj) - {l, negate l}"
    by (auto simp: set_resolve)
  have neq: "l \<noteq> negate l" using negate_neq [of l] by simp
  show "\<exists>l. l \<in> ci \<and> negate l \<in> cj \<and> l \<noteq> negate l \<and>
              r = (ci \<union> cj) - {l, negate l} \<and> l \<notin> r \<and> negate l \<notin> r"
    using l r neq by blast
  show "(\<forall>m\<in>ci \<union> cj. take 2 m \<noteq> ''~~'') \<longrightarrow>
          (\<forall>m\<in>ci. negate m \<notin> ci) \<longrightarrow> (\<forall>m\<in>cj. negate m \<notin> cj) \<longrightarrow>
          ((\<forall>m\<in>r. negate m \<notin> r) \<longleftrightarrow>
           (\<forall>l\<in>ci. \<forall>m\<in>ci. negate l \<in> cj \<longrightarrow> negate m \<in> cj \<longrightarrow> l = m))"
  proof (intro impI iffI)
    assume canon: "\<forall>m\<in>ci \<union> cj. take 2 m \<noteq> ''~~''"
      and ci: "\<forall>m\<in>ci. negate m \<notin> ci" and cj: "\<forall>m\<in>cj. negate m \<notin> cj"
    {
      assume single: "\<forall>l\<in>ci. \<forall>m\<in>ci. negate l \<in> cj \<longrightarrow> negate m \<in> cj \<longrightarrow> l = m"
      show "\<forall>m\<in>r. negate m \<notin> r"
        unfolding r using resolvent_tautology_free [OF canon ci cj l single] by blast
    }
    {
      assume free: "\<forall>m\<in>r. negate m \<notin> r"
      have one: "k = l" if "k \<in> ci" "negate k \<in> cj" for k
      proof (rule ccontr)
        assume "k \<noteq> l"
        from resolvent_tautology [OF canon ci l that this] free show False
          unfolding r by blast
      qed
      show "\<forall>l\<in>ci. \<forall>m\<in>ci. negate l \<in> cj \<longrightarrow> negate m \<in> cj \<longrightarrow> l = m"
      proof (intro ballI impI)
        fix a b assume "a \<in> ci" "b \<in> ci" "negate a \<in> cj" "negate b \<in> cj"
        then have "a = l" "b = l" using one by auto
        then show "a = b" by simp
      qed
    }
  qed
qed


theorem resolve_removes_one_pair_witness:
  "finite {''A'', ''B''} \<and> {''B'', ''C''} \<in> set (resolve {''A'', ''B''} {''~A'', ''C''}) \<and>
   (\<exists>l. l \<in> {''A'', ''B''} \<and> negate l \<in> {''~A'', ''C''} \<and> l \<noteq> negate l \<and>
        {''B'', ''C''} = ({''A'', ''B''} \<union> {''~A'', ''C''}) - {l, negate l} \<and>
        l \<notin> {''B'', ''C''} \<and> negate l \<notin> {''B'', ''C''}) \<and>
   negate ''B'' \<notin> {''B'', ''C''} \<and> negate ''C'' \<notin> {''B'', ''C''}"
proof -
  have f: "finite {''A'', ''B''}" by simp
  have m: "{''B'', ''C''} \<in> set (resolve {''A'', ''B''} {''~A'', ''C''})"
    by code_simp
  have canon: "\<forall>m\<in>{''A'', ''B''} \<union> {''~A'', ''C''}. take 2 m \<noteq> ''~~''" by code_simp
  have ci: "\<forall>m\<in>{''A'', ''B''}. negate m \<notin> {''A'', ''B''}" by code_simp
  have cj: "\<forall>m\<in>{''~A'', ''C''}. negate m \<notin> {''~A'', ''C''}" by code_simp
  have single: "\<forall>l\<in>{''A'', ''B''}. \<forall>m\<in>{''A'', ''B''}.
      negate l \<in> {''~A'', ''C''} \<longrightarrow> negate m \<in> {''~A'', ''C''} \<longrightarrow> l = m" by code_simp
  have b: "''B'' \<in> {''B'', ''C''}" and c: "''C'' \<in> {''B'', ''C''}" by code_simp+
  note pair = resolve_removes_one_pair [OF f m, THEN conjunct1]
  note iff = resolve_removes_one_pair [OF f m, THEN conjunct2, THEN mp, OF canon,
      THEN mp, OF ci, THEN mp, OF cj]
  have free: "\<forall>m\<in>{''B'', ''C''}. negate m \<notin> {''B'', ''C''}"
    by (rule iffD2 [OF iff single])
  show ?thesis
    by (rule conjI [OF f conjI [OF m conjI [OF pair conjI [OF bspec [OF free b] bspec [OF free c]]]]])
qed

text \<open>
  Claim C1 as stated fails where two clauses clash on two atoms: removing one
  complementary pair leaves the other pair in the resolvent.
\<close>

theorem resolve_tautology_counterexample:
  "{''B'', ''~B''} \<in> set (resolve {''A'', ''B''} {''~A'', ''~B''}) \<and>
   ''B'' \<in> {''B'', ''~B''} \<and> negate ''B'' \<in> {''B'', ''~B''}"
  by code_simp


section \<open>Properties of the entailment check\<close>

lemma resolvents_of_mono: "S \<subseteq> S' \<Longrightarrow> resolvents_of S \<subseteq> resolvents_of S'"
  unfolding resolvents_of_def by (rule subsetI) (auto split: if_splits)

text \<open>
  A run that answers \<open>True\<close> is followed, round by round, by the run on any larger
  working set: the larger run meets an empty resolvent no later.
\<close>

lemma saturate_True_mono:
  assumes "saturate S N = Some b"
  shows "b \<longrightarrow> (\<forall>S' N'. S \<subseteq> S' \<and> N \<subseteq> N' \<longrightarrow> saturate S' N' = Some True)"
proof (rule saturate.raw_induct [where P = "\<lambda>S N b. b \<longrightarrow>
         (\<forall>S' N'. S \<subseteq> S' \<and> N \<subseteq> N' \<longrightarrow> saturate S' N' = Some True)", OF _ assms])
  fix f :: "clause set \<Rightarrow> clause set \<Rightarrow> bool option" and S N :: "clause set" and b
  assume IH0: "\<And>S N b. f S N = Some b \<Longrightarrow>
     b \<longrightarrow> (\<forall>S' N'. S \<subseteq> S' \<and> N \<subseteq> N' \<longrightarrow> saturate S' N' = Some True)"
  assume prems: "(if {} \<in> resolvents_of S then Some True
        else if N \<union> resolvents_of S \<subseteq> S then Some False
             else f (S \<union> (N \<union> resolvents_of S)) (N \<union> resolvents_of S)) = Some b"
  show "b \<longrightarrow> (\<forall>S' N'. S \<subseteq> S' \<and> N \<subseteq> N' \<longrightarrow> saturate S' N' = Some True)"
  proof (intro impI allI)
    fix S' N'
    assume b: b and sub: "S \<subseteq> S' \<and> N \<subseteq> N'"
    let ?R = "resolvents_of S" and ?R' = "resolvents_of S'"
    have RR: "?R \<subseteq> ?R'" using sub by (simp add: resolvents_of_mono)
    show "saturate S' N' = Some True"
    proof (cases "{} \<in> ?R'")
      case True
      then show ?thesis by (subst saturate.simps) simp
    next
      case noempty': False
      then have noempty: "{} \<notin> ?R" using RR by blast
      have rec: "f (S \<union> (N \<union> ?R)) (N \<union> ?R) = Some b"
        using prems b noempty by (auto split: if_splits)
      have IH: "\<And>S'' N''. S \<union> (N \<union> ?R) \<subseteq> S'' \<Longrightarrow> N \<union> ?R \<subseteq> N''
                  \<Longrightarrow> saturate S'' N'' = Some True"
        using IH0 [OF rec] b by blast
      show ?thesis
      proof (cases "N' \<union> ?R' \<subseteq> S'")
        case True
        have "saturate S' (N' \<union> ?R') = Some True"
          by (rule IH) (use True sub RR in auto)
        moreover have "saturate S' (N' \<union> ?R') = Some False"
          by (subst saturate.simps) (use True noempty' in auto)
        ultimately show ?thesis by simp
      next
        case False
        have "saturate S' N' = saturate (S' \<union> (N' \<union> ?R')) (N' \<union> ?R')"
          by (subst saturate.simps) (use False noempty' in auto)
        also have "\<dots> = Some True"
          by (rule IH) (use sub RR in auto)
        finally show ?thesis .
      qed
    qed
  qed
qed

text \<open>
  Claim C4. On the example knowledge base the entailment check returns true for the
  query D and false for the query A.
\<close>

theorem resolution_entails_example:
  "resolution_entails example_kb ''D'' = Some True \<and>
   resolution_entails example_kb ''A'' = Some False"
  by code_simp

text \<open>
  Claim C5. If the check returns true for a query on a knowledge base, it returns true
  for the same query on that knowledge base with any further clauses added.
\<close>

theorem resolution_entails_monotone:
  "resolution_entails kb query = Some True \<Longrightarrow>
   resolution_entails (kb \<union> kb') query = Some True"
  unfolding resolution_entails_def
  using saturate_True_mono [of "insert {negate query} kb" "{}" True]
  by auto

theorem resolution_entails_monotone_witness:
  "resolution_entails example_kb ''D'' = Some True \<and>
   resolution_entails (example_kb \<union> {{''E'', ''~D''}}) ''D'' = Some True"
proof -
  have h: "resolution_entails example_kb ''D'' = Some True" by code_simp
  show ?thesis
    using h resolution_entails_monotone [OF h, of "{{''E'', ''~D''}}"] by simp
qed


section \<open>Properties of the abduction\<close>

lemma abduce_unfold:
  "abduce goal kb abducibles seen_arg =
     (if goal \<in> seen_of seen_arg then []
      else prune (candidates goal kb abducibles (seen_of seen_arg \<union> {goal})))"
  by (subst abduce.simps)
     (simp add: Let_def prune_def candidates_def clause_explanations_def seen_of_def cong: map_cong)

lemma prune_antichain: "e1 \<in> set (prune xs) \<Longrightarrow> e2 \<in> set (prune xs) \<Longrightarrow> \<not> e1 \<subset> e2"
  by (auto simp: prune_def list_ex_iff)

lemma set_prune_subset: "set (prune xs) \<subseteq> set xs"
  by (auto simp: prune_def)


text \<open>
  Claim C7. Any two explanation sets in the list returned by \<open>abduce\<close> are incomparable:
  neither is a strict subset of the other.
\<close>

theorem abduce_antichain:
  assumes "E1 \<in> set (abduce goal kb abducibles seen_arg)"
    and "E2 \<in> set (abduce goal kb abducibles seen_arg)"
  shows "\<not> E1 \<subset> E2 \<and> \<not> E2 \<subset> E1"
  using assms prune_antichain [of E1 _ E2] prune_antichain [of E2 _ E1]
  by (auto simp: abduce_unfold split: if_splits)

theorem abduce_antichain_witness:
  "{''t''} \<in> set (abduce ''r'' example_horn_kb {''s'', ''t''} None) \<and>
   {''s''} \<in> set (abduce ''r'' example_horn_kb {''s'', ''t''} None) \<and>
   \<not> {''t''} \<subset> {''s''} \<and> \<not> {''s''} \<subset> {''t''}"
proof -
  have t: "{''t''} \<in> set (abduce ''r'' example_horn_kb {''s'', ''t''} None)" by code_simp
  have s: "{''s''} \<in> set (abduce ''r'' example_horn_kb {''s'', ''t''} None)" by code_simp
  show ?thesis
    by (rule conjI [OF t conjI [OF s abduce_antichain [OF t s]]])
qed

text \<open>
  Claim C6. On the example knowledge base with abducibles s and t, the explanations of r
  are the two sets {t} and {s}, each once.
\<close>

theorem abduce_example:
  "abduce ''r'' example_horn_kb {''s'', ''t''} None = [{''t''}, {''s''}]"
  by code_simp





lemma product_lists_member:
  "combo \<in> set (product_lists xss) \<Longrightarrow> x \<in> set combo \<Longrightarrow> \<exists>xs\<in>set xss. x \<in> set xs"
proof (induction xss arbitrary: combo)
  case Nil
  then show ?case by simp
next
  case (Cons xs xss)
  from Cons.prems(1) obtain y ys where c: "combo = y # ys" "y \<in> set xs" "ys \<in> set (product_lists xss)"
    by auto
  show ?case
  proof (cases "x = y")
    case True
    with c show ?thesis by auto
  next
    case False
    with Cons.prems(2) c have "x \<in> set ys" by simp
    from Cons.IH [OF c(3) this] show ?thesis by auto
  qed
qed

lemma abduce_finite: "e \<in> set (abduce goal kb abducibles seen_arg) \<Longrightarrow> finite e"
proof (induction goal kb abducibles seen_arg arbitrary: e rule: abduce.induct)
  case (1 goal kb abducibles seen_arg)
  let ?seen' = "seen_of seen_arg \<union> {goal}"
  from "1.prems" have notin: "goal \<notin> seen_of seen_arg"
    and e: "e \<in> set (candidates goal kb abducibles ?seen')"
    using set_prune_subset by (auto simp: abduce_unfold split: if_splits)
  from e consider "e = {goal}"
    | c where "c \<in> set kb" "e \<in> set (clause_explanations goal kb abducibles ?seen' c)"
    by (auto simp: candidates_def split: if_splits)
  then show ?case
  proof cases
    case 1
    then show ?thesis by simp
  next
    case 2
    then obtain combo where hd: "head c = goal"
      and combo: "combo \<in> set (product_lists (map (\<lambda>b. abduce b kb abducibles (Some ?seen')) (body c)))"
      and eq: "e = \<Union> (set combo)"
      by (auto simp: clause_explanations_def Let_def split: if_splits)
    have "finite x" if "x \<in> set combo" for x
    proof -
      from product_lists_member [OF combo that]
      obtain b where b: "b \<in> set (body c)" and x: "x \<in> set (abduce b kb abducibles (Some ?seen'))"
        by auto
      show ?thesis
        by (rule "1.IH" [OF _ notin _ \<open>c \<in> set kb\<close> hd b x]) (simp_all add: seen_of_def)
    qed
    then show ?thesis using eq by auto
  qed
qed


text \<open>
  Every explanation is a finite set, so an iteration order as the premise of the claim
  below asks for exists for every list of explanations; the sorted order is one.
\<close>

lemma abduce_iteration_order:
  "\<forall>(i, e)\<in>set (enumerate 0 (abduce goal kb abducibles seen_arg)).
     set (sorted_list_of_set e) = e \<and> distinct (sorted_list_of_set e)"
proof -
  have "set (sorted_list_of_set e) = e \<and> distinct (sorted_list_of_set e)"
    if "(i, e) \<in> set (enumerate 0 (abduce goal kb abducibles seen_arg))" for i e
  proof -
    from that have "e \<in> set (abduce goal kb abducibles seen_arg)"
      by (auto simp: in_set_enumerate_eq)
    then have "finite e" by (rule abduce_finite)
    then show ?thesis by simp
  qed
  then show ?thesis by blast
qed








lemma map_snd_scored_of: "map snd (scored_of rnd iter cost all_expls) = all_expls"
  by (simp add: scored_of_def comp_def case_prod_unfold)

lemma scored_of_Nil: "scored_of rnd iter cost all_expls = [] \<longleftrightarrow> all_expls = []"
  by (cases all_expls) (simp_all add: scored_of_def)












text \<open>
  Two runs in which the floats decide. The clauses are g :- a, b. and g :- d. with all
  three body atoms abducible, so the explanations are {a, b} and {d}. In the first run
  the costs of a and b are a float \<open>c\<close> whose double is too large for a float (such as
  2 to the power 1023) and d is missing from the map: both totals are infinite and both
  explanations are returned. In the second run a and d cost a float \<open>c\<close> that
  swallows the cost 1 of b (such as 10 to the power 16): the totals are equal and both
  explanations are returned.
\<close>

lemma abduce_min_cost_overflow:
  assumes "rnd c = Cost c" and "rnd (c + c) = Infinity"
  shows "abduce_min_cost rnd (\<lambda>i. sorted_list_of_set) ''g''
           [\<lparr>head = ''g'', body = [''a'', ''b'']\<rparr>, \<lparr>head = ''g'', body = [''d'']\<rparr>]
           {''a'', ''b'', ''d''} [''a'' \<mapsto> Cost c, ''b'' \<mapsto> Cost c] =
         Inr [{''a'', ''b''}, {''d''}]"
proof -
  have all: "abduce ''g''
      [\<lparr>head = ''g'', body = [''a'', ''b'']\<rparr>, \<lparr>head = ''g'', body = [''d'']\<rparr>]
      {''a'', ''b'', ''d''} None = [{''a'', ''b''}, {''d''}]"
    by code_simp
  have ab: "sorted_list_of_set {''a'', ''b''} = [''a'', ''b'']" by code_simp
  have d: "sorted_list_of_set {''d''} = [''d'']" by code_simp
  show ?thesis
    using assms
    by (simp add: abduce_min_cost_def scored_of_def total_cost_def cost_get_def all ab d)
qed

lemma abduce_min_cost_rounding:
  assumes "rnd c = Cost c" and "rnd 1 = Cost 1" and "rnd (c + 1) = Cost c"
  shows "abduce_min_cost rnd (\<lambda>i. sorted_list_of_set) ''g''
           [\<lparr>head = ''g'', body = [''a'', ''b'']\<rparr>, \<lparr>head = ''g'', body = [''d'']\<rparr>]
           {''a'', ''b'', ''d''} [''a'' \<mapsto> Cost c, ''b'' \<mapsto> Cost 1, ''d'' \<mapsto> Cost c] =
         Inr [{''a'', ''b''}, {''d''}]"
proof -
  have all: "abduce ''g''
      [\<lparr>head = ''g'', body = [''a'', ''b'']\<rparr>, \<lparr>head = ''g'', body = [''d'']\<rparr>]
      {''a'', ''b'', ''d''} None = [{''a'', ''b''}, {''d''}]"
    by code_simp
  have ab: "sorted_list_of_set {''a'', ''b''} = [''a'', ''b'']" by code_simp
  have d: "sorted_list_of_set {''d''} = [''d'']" by code_simp
  show ?thesis
    using assms
    by (simp add: abduce_min_cost_def scored_of_def total_cost_def cost_get_def all ab d)
qed


section \<open>Properties of the rule induction\<close>

lemma foil_gain_fail: "foil_gain 3 2 0 2 = Inl ValueError"
  by (simp add: foil_gain_def py_truediv_def py_log2_def)

lemma foil_gain_ok: "foil_gain 3 2 3 0 = Inr (3 * (log 2 1 - log 2 (3/5)))"
  by (simp add: foil_gain_def py_truediv_def py_log2_def)

lemma scan_mammal:
  "scan_candidates example_background example_pos example_neg (''Mammal'' # preds) st = Inl ValueError"
  by (cases st) (simp add: example_background_def example_pos_def example_neg_def foil_gain_fail)

lemma scan_candidates_tail_error:
  assumes "\<And>st'. scan_candidates background pos_cover neg_cover preds st' = Inl err"
    and "foil_gain (int (length pos_cover)) (int (length neg_cover))
           (int (length (filter (\<lambda>e. (pred, snd e) \<in> background) pos_cover)))
           (int (length (filter (\<lambda>e. (pred, snd e) \<in> background) neg_cover))) = Inr gain"
  shows "scan_candidates background pos_cover neg_cover (pred # preds) st = Inl err"
  using assms by (cases st) (simp add: Let_def)

lemma scan_bird_mammal:
  "scan_candidates example_background example_pos example_neg [''Bird'', ''Mammal''] st = Inl ValueError"
proof (rule scan_candidates_tail_error)
  show "scan_candidates example_background example_pos example_neg [''Mammal''] st' = Inl ValueError"
    for st' by (rule scan_mammal)
  show "foil_gain (int (length example_pos)) (int (length example_neg))
     (int (length (filter (\<lambda>e. (''Bird'', snd e) \<in> example_background) example_pos)))
     (int (length (filter (\<lambda>e. (''Bird'', snd e) \<in> example_background) example_neg)))
     = Inr (3 * (log 2 1 - log 2 (3/5)))"
    by (simp add: example_background_def example_pos_def example_neg_def foil_gain_ok)
qed

lemma cover_positives_error:
  assumes "pos_examples = first # rest"
    and "add_literals background predicates []
           (filter (\<lambda>e. fst e = fst first) pos_examples)
           (filter (\<lambda>e. fst e = fst first) neg_examples) = Some (Inl err)"
  shows "cover_positives neg_examples background predicates pos_examples rules = Some (Inl err)"
  using assms by (subst cover_positives.simps) (simp add: Let_def)

lemma add_literals_error:
  assumes "neg_cover \<noteq> []"
    and "scan_candidates background pos_cover neg_cover
           (filter (\<lambda>pred. pred \<notin> fst ` set rule_body) predicates) (0, None, [], []) = Inl err"
  shows "add_literals background predicates rule_body pos_cover neg_cover = Some (Inl err)"
  using assms by (subst add_literals.simps) simp

lemma example_pos_filter: "filter (\<lambda>e. fst e = ''Fly'') example_pos = example_pos"
  by (simp add: example_pos_def)

lemma example_neg_filter: "filter (\<lambda>e. fst e = ''Fly'') example_neg = example_neg"
  by (simp add: example_neg_def)

lemma learn_rules_example_error:
  assumes "predicates = [''Bird'', ''Mammal''] \<or> predicates = [''Mammal'', ''Bird'']"
  shows "learn_rules example_pos example_neg example_background predicates = Some (Inl ValueError)"
proof -
  have scan: "scan_candidates example_background example_pos example_neg
           (filter (\<lambda>pred. pred \<notin> fst ` set []) predicates) (0, None, [], []) = Inl ValueError"
    using assms scan_bird_mammal scan_mammal by auto
  have neg: "example_neg \<noteq> []" by (simp add: example_neg_def)
  have add: "add_literals example_background predicates [] example_pos example_neg
      = Some (Inl ValueError)"
    by (rule add_literals_error [OF neg scan])
  have pos: "example_pos = (''Fly'', ''tweety'') # [(''Fly'', ''polly''), (''Fly'', ''tweety2'')]"
    by (simp add: example_pos_def)
  show ?thesis
    unfolding learn_rules_def
    by (rule cover_positives_error [OF pos]) (simp add: example_pos_filter example_neg_filter add)
qed

text \<open>
  With nonnegative counts, \<open>foil_gain\<close> returns a number exactly when one of its two guards
  holds or the new rule still covers a positive example.
\<close>

lemma foil_gain_returns_iff:
  assumes "0 \<le> p" "0 \<le> n" "0 \<le> p1" "0 \<le> n1"
  shows "(\<exists>g. foil_gain p n p1 n1 = Inr g) \<longleftrightarrow> (p = 0 \<or> p1 + n1 = 0 \<or> 0 < p1)"
proof (cases "p = 0 \<or> p1 + n1 = 0")
  case True
  then show ?thesis by (auto simp: foil_gain_def)
next
  case guard: False
  with assms have pos: "0 < p" "0 < p1 + n1" "0 < p + n" by auto
  have d1: "py_truediv p1 (p1 + n1) = Inr (real_of_int p1 / real_of_int (p1 + n1))"
    using pos by (simp add: py_truediv_def)
  have d: "py_truediv p (p + n) = Inr (real_of_int p / real_of_int (p + n))"
    using pos by (simp add: py_truediv_def)
  have q: "0 < real_of_int p / real_of_int (p + n)"
    using pos by (intro divide_pos_pos) (simp_all only: of_int_0_less_iff)
  have l: "py_log2 (real_of_int p / real_of_int (p + n))
      = Inr (log 2 (real_of_int p / real_of_int (p + n)))"
    using q by (simp only: py_log2_def not_le [symmetric] if_False)
  show ?thesis
  proof (cases "0 < p1")
    case True
    have "0 < real_of_int p1 / real_of_int (p1 + n1)"
      using True pos by (intro divide_pos_pos) (simp_all only: of_int_0_less_iff)
    then have "py_log2 (real_of_int p1 / real_of_int (p1 + n1))
        = Inr (log 2 (real_of_int p1 / real_of_int (p1 + n1)))"
      by (simp only: py_log2_def not_le [symmetric] if_False)
    then have "\<exists>g. foil_gain p n p1 n1 = Inr g"
      using guard by (simp only: foil_gain_def d1 d l if_False sum.case) blast
    with True show ?thesis by simp
  next
    case False
    with assms have p1: "p1 = 0" by simp
    have "py_log2 (real_of_int p1 / real_of_int (p1 + n1)) = Inl ValueError"
      by (simp add: p1 py_log2_def)
    then have "foil_gain p n p1 n1 = Inl ValueError"
      using guard by (simp only: foil_gain_def d1 if_False sum.case)
    with guard p1 show ?thesis by simp
  qed
qed

text \<open>
  Claim C2. The guard of \<open>foil_gain\<close> lets through a call with a positive count \<open>p\<close>, no
  positive example left (\<open>p1 = 0\<close>) and a negative example left (\<open>n1 > 0\<close>): the first
  logarithm is then taken of zero and the call raises. These are the counts of the
  candidate Mammal in the first round on the example data.
\<close>

theorem foil_gain_log_of_zero:
  "foil_gain 3 2 0 2 = Inl ValueError \<and>
   foil_gain (int (length example_pos)) (int (length example_neg))
     (int (length (filter (\<lambda>e. (''Mammal'', snd e) \<in> example_background) example_pos)))
     (int (length (filter (\<lambda>e. (''Mammal'', snd e) \<in> example_background) example_neg)))
   = Inl ValueError"
  by (simp add: example_background_def example_pos_def example_neg_def foil_gain_fail)

text \<open>
  Claim C3. On the example data \<open>learn_rules\<close> returns no rule: in either iteration order
  of the two predicates the first round reaches the candidate Mammal and raises.
\<close>

theorem learn_rules_example_raises:
  "learn_rules example_pos example_neg example_background [''Bird'', ''Mammal'']
     = Some (Inl ValueError) \<and>
   learn_rules example_pos example_neg example_background [''Mammal'', ''Bird'']
     = Some (Inl ValueError)"
  by (simp add: learn_rules_example_error)

end
